theory Spec2Isabelle
  imports Complex_Main "HOL-Library.Word"
begin

unbundle bit_operations_syntax

section \<open>The serial bridge of \<^verbatim>\<open>Kraken_recording/arduino_lsl_bridge.py\<close>\<close>

subsection \<open>Constants\<close>

type_synonym byte = "8 word"

definition NUM_CHANNELS :: nat where
  "NUM_CHANNELS = 6"

definition SYNC_BYTE_1 :: byte where
  "SYNC_BYTE_1 = 0xC7"

definition SYNC_BYTE_2 :: byte where
  "SYNC_BYTE_2 = 0x7C"

definition END_BYTE :: byte where
  "END_BYTE = 0x01"

definition PACKET_LEN :: nat where
  "PACKET_LEN = NUM_CHANNELS * 2 + 3 + 1"

subsection \<open>The receive side of the serial port\<close>

text \<open>
  The port is opened with \<^verbatim>\<open>timeout=0.1\<close>, so \<^verbatim>\<open>ser.read(k)\<close> returns at most
  \<^verbatim>\<open>k\<close> bytes and may return fewer, also none. The receive side is the list of the
  bursts the successive reads find: a read takes the head burst when it has at most
  \<^verbatim>\<open>k\<close> bytes (the empty burst is a read that times out with nothing) and the first
  \<^verbatim>\<open>k\<close> bytes of it otherwise, the others staying for the next read. After the last
  burst the device is silent: every read returns the empty byte string.
\<close>

type_synonym serial = "byte list list"

fun ser_read :: "serial \<Rightarrow> nat \<Rightarrow> byte list \<times> serial" where
  "ser_read [] k = ([], [])"
| "ser_read (c # cs) k =
     (if length c \<le> k then (c, cs) else (take k c, drop k c # cs))"

subsection \<open>\<^verbatim>\<open>read_exact\<close>\<close>

text \<open>
  \<^verbatim>\<open>
  def read_exact(ser, n):
      data = bytearray()
      while len(data) < n:
          chunk = ser.read(n - len(data))
          if not chunk:
              continue
          data.extend(chunk)
      return bytes(data)
  \<close>
  The loop polls for ever on a silent device, so it is a partial function: \<open>None\<close> is
  the call that never returns. The result carries the port as the call leaves it.
\<close>

partial_function (option) read_exact_loop ::
  "serial \<Rightarrow> nat \<Rightarrow> byte list \<Rightarrow> (byte list \<times> serial) option" where
  "read_exact_loop ser n data =
     (if length data < n then
        (case ser_read ser (n - length data) of
           (chunk, ser') \<Rightarrow>
             if chunk = [] then read_exact_loop ser' n data
             else read_exact_loop ser' n (data @ chunk))
      else Some (data, ser))"

definition read_exact :: "serial \<Rightarrow> nat \<Rightarrow> (byte list \<times> serial) option" where
  "read_exact ser n = read_exact_loop ser n []"

subsection \<open>\<^verbatim>\<open>find_sync\<close>\<close>

text \<open>
  \<^verbatim>\<open>
  def find_sync(ser):
      while True:
          b = ser.read(1)
          if not b:
              continue
          if b[0] != SYNC_BYTE_1:
              continue
          b2 = ser.read(1)
          if not b2 or b2[0] != SYNC_BYTE_2:
              continue
          rest = read_exact(ser, PACKET_LEN - 2)
          return bytes([SYNC_BYTE_1, SYNC_BYTE_2]) + rest
  \<close>
\<close>

partial_function (option) find_sync :: "serial \<Rightarrow> (byte list \<times> serial) option" where
  "find_sync ser =
     (case ser_read ser 1 of
        (b, ser1) \<Rightarrow>
          if b = [] then find_sync ser1
          else if hd b \<noteq> SYNC_BYTE_1 then find_sync ser1
          else (case ser_read ser1 1 of
                  (b2, ser2) \<Rightarrow>
                    if b2 = [] \<or> hd b2 \<noteq> SYNC_BYTE_2 then find_sync ser2
                    else (case read_exact ser2 (PACKET_LEN - 2) of
                            None \<Rightarrow> None
                          | Some (rest, ser3) \<Rightarrow>
                              Some ([SYNC_BYTE_1, SYNC_BYTE_2] @ rest, ser3))))"

subsection \<open>Validation and decoding of a packet\<close>

text \<open>
  Indexing a Python \<^verbatim>\<open>bytes\<close> object out of range raises \<^verbatim>\<open>IndexError\<close>;
  \<^verbatim>\<open>packet[-1]\<close> is the last byte and raises on the empty byte string. \<^verbatim>\<open>print\<close>
  raises \<^verbatim>\<open>UnicodeEncodeError\<close> on a character that the encoding of \<^verbatim>\<open>sys.stdout\<close> lacks.
\<close>

datatype error = IndexError | UnicodeEncodeError

definition py_index :: "byte list \<Rightarrow> nat \<Rightarrow> error + byte" where
  "py_index xs i = (if i < length xs then Inr (xs ! i) else Inl IndexError)"

definition py_last :: "byte list \<Rightarrow> error + byte" where
  "py_last xs = (if xs = [] then Inl IndexError else Inr (last xs))"

text \<open>
  The sanity check of the main loop, with the short-circuit evaluation of \<^verbatim>\<open>or\<close>:
  \<^verbatim>\<open>
  if packet[0] != SYNC_BYTE_1 or packet[1] != SYNC_BYTE_2 or packet[-1] != END_BYTE:
  \<close>
  \<open>Inr True\<close> is the branch "lost sync".
\<close>

definition lost_sync :: "byte list \<Rightarrow> error + bool" where
  "lost_sync packet =
     (case py_index packet 0 of
        Inl e \<Rightarrow> Inl e
      | Inr b0 \<Rightarrow>
          if b0 \<noteq> SYNC_BYTE_1 then Inr True
          else (case py_index packet 1 of
                  Inl e \<Rightarrow> Inl e
                | Inr b1 \<Rightarrow>
                    if b1 \<noteq> SYNC_BYTE_2 then Inr True
                    else (case py_last packet of
                            Inl e \<Rightarrow> Inl e
                          | Inr bl \<Rightarrow> Inr (bl \<noteq> END_BYTE))))"

text \<open>
  \<^verbatim>\<open>
  values = []
  offset = 3  # skip sync and counter
  for _ in range(NUM_CHANNELS):
      high = packet[offset]
      low  = packet[offset + 1]
      raw  = (high << 8) | low
      values.append(float(raw))
      offset += 2
  \<close>
  The elements of a \<^verbatim>\<open>bytes\<close> object are Python integers, which are unbounded, so the
  shift and the bitwise or are those of \<open>int\<close>. A Python float holds every integer
  below \<open>2^53\<close> in magnitude exactly (and the \<^verbatim>\<open>float32\<close> of the stream every integer
  below \<open>2^24\<close>), so \<^verbatim>\<open>float(raw)\<close> is the number \<open>raw\<close> itself for the 16-bit values
  that occur here: the channel values are reals.
\<close>

definition raw_value :: "byte \<Rightarrow> byte \<Rightarrow> int" where
  "raw_value high low = push_bit 8 (uint high) OR uint low"

fun parse_loop :: "nat \<Rightarrow> byte list \<Rightarrow> nat \<Rightarrow> real list \<Rightarrow> error + real list" where
  "parse_loop 0 packet offset values = Inr values"
| "parse_loop (Suc k) packet offset values =
     (case py_index packet offset of
        Inl e \<Rightarrow> Inl e
      | Inr high \<Rightarrow>
          (case py_index packet (offset + 1) of
             Inl e \<Rightarrow> Inl e
           | Inr low \<Rightarrow>
               parse_loop k packet (offset + 2)
                 (values @ [real_of_int (raw_value high low)])))"

definition parse_values :: "byte list \<Rightarrow> error + real list" where
  "parse_values packet = parse_loop NUM_CHANNELS packet 3 []"

text \<open>
  The values the loop computes for a packet of \<^verbatim>\<open>PACKET_LEN\<close> bytes, in closed form
  (\<open>parse_values_closed\<close> below).
\<close>

definition channel_values :: "byte list \<Rightarrow> real list" where
  "channel_values packet =
     map (\<lambda>i. real_of_int (raw_value (packet ! (3 + 2 * i)) (packet ! (3 + 2 * i + 1))))
       [0..<NUM_CHANNELS]"

subsection \<open>The state of the bridge\<close>

text \<open>
  What \<^verbatim>\<open>main\<close> works on: the receive side of the port, the bytes written to the
  port, the samples pushed to the LSL outlet in the order of the pushes, and the counter
  \<^verbatim>\<open>sample_count\<close>. What is printed is not kept, only whether printing raises. The
  once-a-second report of the loop prints ASCII text, which cannot raise, when the clock
  says so; it is left out with the clock.
\<close>

record bridge =
  port_rx :: serial
  port_tx :: "byte list"
  outlet :: "real list list"
  sample_count :: int

subsection \<open>Printing to the console\<close>

text \<open>
  \<^verbatim>\<open>print\<close> encodes its text with the encoding of \<^verbatim>\<open>sys.stdout\<close>, whose error handler is
  \<^verbatim>\<open>strict\<close>, and raises \<^verbatim>\<open>UnicodeEncodeError\<close> on a character the encoding lacks. The
  encoding is that of the machine the bridge runs on (UTF-8 on a terminal, the ANSI code
  page such as cp1252 when the output of a Windows machine is redirected): a parameter,
  given as the set of the code points beyond ASCII that it has. Every encoding a Python
  console can have has the ASCII characters. A text is the list of its code points.
\<close>

type_synonym console = "nat \<Rightarrow> bool"

definition py_print :: "console \<Rightarrow> nat list \<Rightarrow> error + unit" where
  "py_print enc text =
     (if list_all (\<lambda>c. c < 128 \<or> enc c) text then Inr () else Inl UnicodeEncodeError)"

definition utf8_console :: console where
  "utf8_console c \<longleftrightarrow> (c < 0xD800 \<or> 0xDFFF < c) \<and> c < 0x110000"

definition cp1252_console :: console where
  "cp1252_console c \<longleftrightarrow>
     (0xA0 \<le> c \<and> c \<le> 0xFF)
     \<or> c \<in> set [0x152, 0x153, 0x160, 0x161, 0x178, 0x17D, 0x17E, 0x192, 0x2C6, 0x2DC,
                  0x2013, 0x2014, 0x2018, 0x2019, 0x201A, 0x201C, 0x201D, 0x201E, 0x2020,
                  0x2021, 0x2022, 0x2026, 0x2030, 0x2039, 0x203A, 0x20AC, 0x2122]"

text \<open>
  \<^verbatim>\<open>bytes.decode(errors="ignore")\<close>: the UTF-8 decoder of Python, which drops what is
  not well-formed UTF-8. An ill-formed sequence is dropped up to the first byte that
  cannot continue it, and decoding resumes at that byte; overlong forms, surrogates and
  code points above \<^verbatim>\<open>10FFFF\<close> are ill-formed from their second byte on.
\<close>

definition continuation :: "byte \<Rightarrow> bool" where
  "continuation b \<longleftrightarrow> 0x80 \<le> b \<and> b \<le> 0xBF"

definition second_of_3 :: "byte \<Rightarrow> byte \<Rightarrow> bool" where
  "second_of_3 b0 b1 =
     (if b0 = 0xE0 then 0xA0 \<le> b1 \<and> b1 \<le> 0xBF
      else if b0 = 0xED then 0x80 \<le> b1 \<and> b1 \<le> 0x9F
      else continuation b1)"

definition second_of_4 :: "byte \<Rightarrow> byte \<Rightarrow> bool" where
  "second_of_4 b0 b1 =
     (if b0 = 0xF0 then 0x90 \<le> b1 \<and> b1 \<le> 0xBF
      else if b0 = 0xF4 then 0x80 \<le> b1 \<and> b1 \<le> 0x8F
      else continuation b1)"

fun utf8_decode_ignore :: "byte list \<Rightarrow> nat list" where
  "utf8_decode_ignore [] = []"
| "utf8_decode_ignore (b0 # bs) =
     (if b0 < 0x80 then unat b0 # utf8_decode_ignore bs
      else if 0xC2 \<le> b0 \<and> b0 \<le> 0xDF then
        (case bs of
           [] \<Rightarrow> []
         | b1 # bs1 \<Rightarrow>
             if continuation b1
             then (unat b0 mod 32 * 64 + unat b1 mod 64) # utf8_decode_ignore bs1
             else utf8_decode_ignore bs)
      else if 0xE0 \<le> b0 \<and> b0 \<le> 0xEF then
        (case bs of
           [] \<Rightarrow> []
         | b1 # bs1 \<Rightarrow>
             if \<not> second_of_3 b0 b1 then utf8_decode_ignore bs
             else (case bs1 of
                     [] \<Rightarrow> []
                   | b2 # bs2 \<Rightarrow>
                       if continuation b2
                       then (unat b0 mod 16 * 4096 + unat b1 mod 64 * 64 + unat b2 mod 64)
                              # utf8_decode_ignore bs2
                       else utf8_decode_ignore bs1))
      else if 0xF0 \<le> b0 \<and> b0 \<le> 0xF4 then
        (case bs of
           [] \<Rightarrow> []
         | b1 # bs1 \<Rightarrow>
             if \<not> second_of_4 b0 b1 then utf8_decode_ignore bs
             else (case bs1 of
                     [] \<Rightarrow> []
                   | b2 # bs2 \<Rightarrow>
                       if \<not> continuation b2 then utf8_decode_ignore bs1
                       else (case bs2 of
                               [] \<Rightarrow> []
                             | b3 # bs3 \<Rightarrow>
                                 if continuation b3
                                 then (unat b0 mod 8 * 262144 + unat b1 mod 64 * 4096
                                         + unat b2 mod 64 * 64 + unat b3 mod 64)
                                        # utf8_decode_ignore bs3
                                 else utf8_decode_ignore bs2)))
      else utf8_decode_ignore bs)"

text \<open>
  \<^verbatim>\<open>str.strip()\<close> removes the white space at both ends: the characters for which
  \<^verbatim>\<open>str.isspace\<close> holds.
\<close>

definition is_space :: "nat \<Rightarrow> bool" where
  "is_space c \<longleftrightarrow>
     (0x09 \<le> c \<and> c \<le> 0x0D) \<or> (0x1C \<le> c \<and> c \<le> 0x20) \<or> c = 0x85 \<or> c = 0xA0
     \<or> c = 0x1680 \<or> (0x2000 \<le> c \<and> c \<le> 0x200A) \<or> c = 0x2028 \<or> c = 0x2029
     \<or> c = 0x202F \<or> c = 0x205F \<or> c = 0x3000"

definition strip :: "nat list \<Rightarrow> nat list" where
  "strip text = rev (dropWhile is_space (rev (dropWhile is_space text)))"

subsection \<open>The handshake\<close>

text \<open>
  \<^verbatim>\<open>
  ser.write(b"WHORU\n")
  time.sleep(0.1)
  reply = ser.read(ser.in_waiting or 1)
  print("Board replied to WHORU:", reply.decode(errors="ignore").strip())
  ser.write(b"START\n")
  ser.flush()
  \<close>
  \<^verbatim>\<open>ser.in_waiting\<close> is whatever number of bytes the driver holds at that moment: a
  parameter. \<^verbatim>\<open>print\<close> writes its two arguments with a space between them and a new line
  at the end. The exception is returned with the state of the bridge when it is raised,
  the reply beside the state otherwise.
\<close>

definition WHORU :: "byte list" where
  "WHORU = [0x57, 0x48, 0x4F, 0x52, 0x55, 0x0A]"

definition START :: "byte list" where
  "START = [0x53, 0x54, 0x41, 0x52, 0x54, 0x0A]"

definition handshake ::
  "console \<Rightarrow> nat \<Rightarrow> bridge \<Rightarrow> (error \<times> bridge) + (byte list \<times> bridge)" where
  "handshake enc in_waiting st =
     (let st1 = st\<lparr>port_tx := port_tx st @ WHORU\<rparr>;
          (reply, rx') = ser_read (port_rx st1) (if in_waiting = 0 then 1 else in_waiting);
          st2 = st1\<lparr>port_rx := rx'\<rparr>
      in case py_print enc (map of_char ''Board replied to WHORU:'' @ [0x20]
                              @ strip (utf8_decode_ignore reply) @ [0x0A]) of
           Inl e \<Rightarrow> Inl (e, st2)
         | Inr u \<Rightarrow> Inr (reply, st2\<lparr>port_tx := port_tx st2 @ START\<rparr>))"

subsection \<open>One iteration of the main loop\<close>

text \<open>
  \<^verbatim>\<open>
  packet = read_exact(ser, PACKET_LEN)
  if packet[0] != SYNC_BYTE_1 or packet[1] != SYNC_BYTE_2 or packet[-1] != END_BYTE:
      packet = find_sync(ser)
      continue
  values = [...]
  outlet.push_sample(values)
  sample_count += 1
  \<close>
  \<open>None\<close> is the iteration that never ends (a read that polls for ever),
  \<open>Some (Inl e)\<close> the one that raises, \<open>Some (Inr st')\<close> the one after which the
  next iteration starts in \<open>st'\<close>. The packet that \<^verbatim>\<open>find_sync\<close> returns is assigned
  and then overwritten by the next \<^verbatim>\<open>read_exact\<close>.
\<close>

definition loop_iteration :: "bridge \<Rightarrow> (error + bridge) option" where
  "loop_iteration st =
     (case read_exact (port_rx st) PACKET_LEN of
        None \<Rightarrow> None
      | Some (packet, rx1) \<Rightarrow>
          (case lost_sync packet of
             Inl e \<Rightarrow> Some (Inl e)
           | Inr True \<Rightarrow>
               (case find_sync rx1 of
                  None \<Rightarrow> None
                | Some (packet', rx2) \<Rightarrow> Some (Inr (st\<lparr>port_rx := rx2\<rparr>)))
           | Inr False \<Rightarrow>
               (case parse_values packet of
                  Inl e \<Rightarrow> Some (Inl e)
                | Inr values \<Rightarrow>
                    Some (Inr (st\<lparr>port_rx := rx1,
                                    outlet := outlet st @ [values],
                                    sample_count := sample_count st + 1\<rparr>)))))"

subsection \<open>The frames of the two scenarios\<close>

text \<open>
  The packet \<^verbatim>\<open>C7 7C 00 00 01 00 02 00 03 00 04 00 05 00 06 01\<close>, and the same with the
  terminator \<^verbatim>\<open>02\<close>.
\<close>

definition frame_1_to_6 :: "byte list" where
  "frame_1_to_6 =
     [0xC7, 0x7C, 0x00, 0x00, 0x01, 0x00, 0x02, 0x00, 0x03, 0x00, 0x04, 0x00, 0x05, 0x00, 0x06, 0x01]"

definition frame_bad_end :: "byte list" where
  "frame_bad_end =
     [0xC7, 0x7C, 0x00, 0x00, 0x01, 0x00, 0x02, 0x00, 0x03, 0x00, 0x04, 0x00, 0x05, 0x00, 0x06, 0x02]"

text \<open>A frame with channel values above the 14-bit range of the ADC.\<close>

definition frame_full_scale :: "byte list" where
  "frame_full_scale =
     [0xC7, 0x7C, 0x07, 0xFF, 0xFF, 0x40, 0x00, 0x3F, 0xFF, 0x00, 0x00, 0x80, 0x00, 0x12, 0x34, 0x01]"

subsection \<open>How the marker pair of a frame is delivered\<close>

text \<open>
  A property of the delivery, used to state what \<^verbatim>\<open>find_sync\<close> needs: the bytes at the
  positions \<open>k\<close> and \<open>k + 1\<close> of the stream both arrive, and no read that comes back
  empty separates them (they lie in one burst, or the first ends a burst and the next
  burst is not empty).
\<close>

fun pair_unbroken :: "nat \<Rightarrow> serial \<Rightarrow> bool" where
  "pair_unbroken k [] = False"
| "pair_unbroken k (c # cs) =
     (if Suc k < length c then True
      else if Suc k = length c then (case cs of [] \<Rightarrow> False | d # ds \<Rightarrow> d \<noteq> [])
      else pair_unbroken (k - length c) cs)"

subsection \<open>Noise that the scan passes\<close>

text \<open>
  A property of the bytes in front of a frame, used to state what \<^verbatim>\<open>find_sync\<close> needs: the
  scan reads the bytes in pairs from each \<^verbatim>\<open>C7\<close> on, and in the noise no such pair is
  \<^verbatim>\<open>C7 7C\<close> or \<^verbatim>\<open>C7 C7\<close>, nor is a \<^verbatim>\<open>C7\<close> the last byte.
\<close>

fun noise_skippable :: "byte list \<Rightarrow> bool" where
  "noise_skippable [] = True"
| "noise_skippable [x] = (x \<noteq> SYNC_BYTE_1)"
| "noise_skippable (x # y # zs) =
     (if x = SYNC_BYTE_1 then y \<noteq> SYNC_BYTE_1 \<and> y \<noteq> SYNC_BYTE_2 \<and> noise_skippable zs
      else noise_skippable (y # zs))"

text \<open>
  The same without the recursion (\<open>noise_skippable_iff\<close> below): every \<^verbatim>\<open>C7\<close> of the
  noise is followed, in the noise, by a byte that is neither \<^verbatim>\<open>C7\<close> nor \<^verbatim>\<open>7C\<close>.
\<close>

definition sync_1_followed :: "byte list \<Rightarrow> bool" where
  "sync_1_followed noise \<longleftrightarrow>
   (\<forall>i<length noise. noise ! i = SYNC_BYTE_1 \<longrightarrow>
      Suc i < length noise \<and> noise ! Suc i \<noteq> SYNC_BYTE_1 \<and> noise ! Suc i \<noteq> SYNC_BYTE_2)"

subsection \<open>Packets cut from the stream in their order\<close>

text \<open>
  \<open>in_order ps bs\<close>: the packets \<open>ps\<close> are pieces of the byte stream \<open>bs\<close> that do
  not overlap and that lie in \<open>bs\<close> in the order of the list.
\<close>

fun in_order :: "'a list list \<Rightarrow> 'a list \<Rightarrow> bool" where
  "in_order [] bs = True"
| "in_order (p # ps) bs = (\<exists>gap rest. bs = gap @ p @ rest \<and> in_order ps rest)"

section \<open>Reading from the port\<close>

lemma read_exact_loop_silent:
  "read_exact_loop [] n data = (if length data < n then None else Some (data, []))"
proof (cases "length data < n")
  case True
  have "ser = [] \<longrightarrow> \<not> length data < n" if "read_exact_loop ser n data = Some r" for ser r
    by (rule read_exact_loop.raw_induct
          [where P = "\<lambda>ser n data r. ser = [] \<longrightarrow> \<not> length data < n", OF _ that])
       (auto split: if_splits)
  with True show ?thesis
    by (cases "read_exact_loop [] n data") auto
next
  case False
  then show ?thesis
    by (subst read_exact_loop.simps) simp
qed

lemma read_exact_loop_done:
  "\<not> length data < n \<Longrightarrow> read_exact_loop ser n data = Some (data, ser)"
  by (subst read_exact_loop.simps) simp

lemma read_exact_loop_burst:
  "length data < n \<Longrightarrow>
   read_exact_loop (c # cs) n data =
     (if length c \<le> n - length data then read_exact_loop cs n (data @ c)
      else Some (data @ take (n - length data) c, drop (n - length data) c # cs))"
  by (subst read_exact_loop.simps) (auto simp: read_exact_loop_done)

lemma read_exact_loop_supplied:
  "length data \<le> n \<Longrightarrow> n \<le> length data + length (concat ser) \<Longrightarrow>
   \<exists>ser'. read_exact_loop ser n data = Some (data @ take (n - length data) (concat ser), ser')
       \<and> concat ser' = drop (n - length data) (concat ser)"
proof (induction ser arbitrary: data)
  case Nil
  then show ?case by (simp add: read_exact_loop_silent)
next
  case (Cons c cs)
  show ?case
  proof (cases "length data < n")
    case False
    with Cons.prems show ?thesis by (simp add: read_exact_loop_done)
  next
    case True
    show ?thesis
    proof (cases "length c \<le> n - length data")
      case False
      with True show ?thesis by (simp add: read_exact_loop_burst)
    next
      case short: True
      from short True Cons.prems
      have "\<exists>ser'. read_exact_loop cs n (data @ c)
                = Some ((data @ c) @ take (n - length (data @ c)) (concat cs), ser')
              \<and> concat ser' = drop (n - length (data @ c)) (concat cs)"
        by (intro Cons.IH) auto
      with short True show ?thesis by (simp add: read_exact_loop_burst)
    qed
  qed
qed

lemma read_exact_loop_sound:
  "read_exact_loop ser n data = Some r \<Longrightarrow> length data \<le> n \<Longrightarrow>
   length (fst r) = n \<and> (\<exists>new. fst r = data @ new \<and> concat ser = new @ concat (snd r))"
proof (induction ser arbitrary: data)
  case Nil
  then show ?case by (auto simp: read_exact_loop_silent split: if_splits)
next
  case (Cons c cs)
  show ?case
  proof (cases "length data < n")
    case False
    with Cons.prems show ?thesis by (auto simp: read_exact_loop_done)
  next
    case True
    show ?thesis
    proof (cases "length c \<le> n - length data")
      case False
      with True Cons.prems show ?thesis by (auto simp: read_exact_loop_burst)
    next
      case short: True
      with True Cons.prems have r: "read_exact_loop cs n (data @ c) = Some r"
        by (simp add: read_exact_loop_burst)
      from short True have "length (data @ c) \<le> n" by simp
      from Cons.IH [OF r this] show ?thesis by auto
    qed
  qed
qed

lemma ser_read_concat:
  "ser_read ser k = (chunk, ser') \<Longrightarrow> concat ser = chunk @ concat ser' \<and> length chunk \<le> k"
  by (cases ser) (auto split: if_splits)

lemma ser_read_one:
  "ser_read ((x # xs) # cs) 1 = ([x], if xs = [] then cs else xs # cs)"
  by (cases xs) auto

lemma read_exact_sound:
  assumes "read_exact ser n = Some (packet, ser')"
  shows "length packet = n \<and> concat ser = packet @ concat ser'"
  using read_exact_loop_sound [of ser n "[]" "(packet, ser')"] assms
  by (simp add: read_exact_def)

section \<open>Scanning for the sync bytes\<close>

lemma find_sync_silent: "find_sync [] = None"
proof -
  have "ser \<noteq> []" if "find_sync ser = Some r" for ser r
    by (rule find_sync.raw_induct [where P = "\<lambda>ser r. ser \<noteq> []", OF _ that])
       fastforce
  then show ?thesis
    by (cases "find_sync []") auto
qed

lemma find_sync_timeout: "find_sync ([] # cs) = find_sync cs"
  by (subst find_sync.simps) simp

lemma find_sync_other:
  "x \<noteq> SYNC_BYTE_1 \<Longrightarrow>
   find_sync ((x # xs) # cs) = find_sync (if xs = [] then cs else xs # cs)"
  by (subst find_sync.simps) (simp only: ser_read_one, simp)

lemma find_sync_first:
  "x = SYNC_BYTE_1 \<Longrightarrow>
   find_sync ((x # xs) # cs) =
     (case ser_read (if xs = [] then cs else xs # cs) 1 of
        (b2, ser2) \<Rightarrow>
          if b2 = [] \<or> hd b2 \<noteq> SYNC_BYTE_2 then find_sync ser2
          else (case read_exact ser2 (PACKET_LEN - 2) of
                  None \<Rightarrow> None
                | Some (rest, ser3) \<Rightarrow> Some ([SYNC_BYTE_1, SYNC_BYTE_2] @ rest, ser3)))"
  by (subst find_sync.simps) (simp only: ser_read_one, simp)

lemma find_sync_sound:
  assumes "find_sync ser = Some r"
  shows "\<exists>skipped. concat ser = skipped @ fst r @ concat (snd r)
           \<and> length (fst r) = PACKET_LEN \<and> take 2 (fst r) = [SYNC_BYTE_1, SYNC_BYTE_2]"
proof (rule find_sync.raw_induct
    [where P = "\<lambda>ser r. \<exists>skipped. concat ser = skipped @ fst r @ concat (snd r)
           \<and> length (fst r) = PACKET_LEN \<and> take 2 (fst r) = [SYNC_BYTE_1, SYNC_BYTE_2]",
     OF _ assms])
  fix f :: "serial \<Rightarrow> (byte list \<times> serial) option" and ser r
  assume IH: "\<And>x y. f x = Some y \<Longrightarrow>
      \<exists>skipped. concat x = skipped @ fst y @ concat (snd y)
           \<and> length (fst y) = PACKET_LEN \<and> take 2 (fst y) = [SYNC_BYTE_1, SYNC_BYTE_2]"
  assume body: "(case ser_read ser 1 of
        (b, ser1) \<Rightarrow>
          if b = [] then f ser1
          else if hd b \<noteq> SYNC_BYTE_1 then f ser1
          else (case ser_read ser1 1 of
                  (b2, ser2) \<Rightarrow>
                    if b2 = [] \<or> hd b2 \<noteq> SYNC_BYTE_2 then f ser2
                    else (case read_exact ser2 (PACKET_LEN - 2) of
                            None \<Rightarrow> None
                          | Some (rest, ser3) \<Rightarrow>
                              Some ([SYNC_BYTE_1, SYNC_BYTE_2] @ rest, ser3)))) = Some r"
  obtain b ser1 where r1: "ser_read ser 1 = (b, ser1)" by (cases "ser_read ser 1")
  obtain b2 ser2 where r2: "ser_read ser1 1 = (b2, ser2)" by (cases "ser_read ser1 1")
  from ser_read_concat [OF r1] have c1: "concat ser = b @ concat ser1" and l1: "length b \<le> 1"
    by simp_all
  from ser_read_concat [OF r2] have c2: "concat ser1 = b2 @ concat ser2" and l2: "length b2 \<le> 1"
    by simp_all
  consider (again1) "f ser1 = Some r"
    | (again2) "f ser2 = Some r"
    | (found) rest ser3 where "b \<noteq> []" "hd b = SYNC_BYTE_1" "b2 \<noteq> []" "hd b2 = SYNC_BYTE_2"
        "read_exact ser2 (PACKET_LEN - 2) = Some (rest, ser3)"
        "r = ([SYNC_BYTE_1, SYNC_BYTE_2] @ rest, ser3)"
    using body r1 r2 by (auto split: if_splits option.splits)
  then show "\<exists>skipped. concat ser = skipped @ fst r @ concat (snd r)
           \<and> length (fst r) = PACKET_LEN \<and> take 2 (fst r) = [SYNC_BYTE_1, SYNC_BYTE_2]"
  proof cases
    case again1
    from IH [OF this] obtain sk where "concat ser1 = sk @ fst r @ concat (snd r)"
      and rest: "length (fst r) = PACKET_LEN" "take 2 (fst r) = [SYNC_BYTE_1, SYNC_BYTE_2]"
      by blast
    with c1 have "concat ser = (b @ sk) @ fst r @ concat (snd r)" by simp
    with rest show ?thesis by blast
  next
    case again2
    from IH [OF this] obtain sk where "concat ser2 = sk @ fst r @ concat (snd r)"
      and rest: "length (fst r) = PACKET_LEN" "take 2 (fst r) = [SYNC_BYTE_1, SYNC_BYTE_2]"
      by blast
    with c1 c2 have "concat ser = (b @ b2 @ sk) @ fst r @ concat (snd r)" by simp
    with rest show ?thesis by blast
  next
    case found
    from found(1,2) l1 have b: "b = [SYNC_BYTE_1]" by (cases b) auto
    from found(3,4) l2 have b2: "b2 = [SYNC_BYTE_2]" by (cases b2) auto
    from read_exact_sound [OF found(5)]
    have "length rest = PACKET_LEN - 2" "concat ser2 = rest @ concat ser3" by simp_all
    with c1 c2 b b2 found(6) have "concat ser = [] @ fst r @ concat (snd r)"
      and "length (fst r) = PACKET_LEN" and "take 2 (fst r) = [SYNC_BYTE_1, SYNC_BYTE_2]"
      by (simp_all add: PACKET_LEN_def NUM_CHANNELS_def)
    then show ?thesis by blast
  qed
qed

lemma pair_unbroken_skip:
  "pair_unbroken (Suc k) ((x # xs) # cs) \<Longrightarrow> pair_unbroken k (if xs = [] then cs else xs # cs)"
  by (auto split: if_splits)

lemma pair_unbroken_second:
  assumes "pair_unbroken 0 ((x # xs) # cs)" and "concat ((x # xs) # cs) = x # y # others"
  shows "\<exists>s2. ser_read (if xs = [] then cs else xs # cs) 1 = ([y], s2) \<and> concat s2 = others"
proof (cases xs)
  case Nil
  with assms obtain d ds cs' where cs: "cs = (d # ds) # cs'"
    by (cases cs; cases "hd cs") (auto split: if_splits)
  with Nil assms(2) have "d = y" "concat (if ds = [] then cs' else ds # cs') = others" by auto
  with Nil cs show ?thesis by (simp only: ser_read_one) auto
next
  case (Cons y' ys)
  with assms(2) have "y' = y" "concat (if ys = [] then cs else ys # cs) = others" by auto
  with Cons show ?thesis by (simp only: ser_read_one) auto
qed

lemma find_sync_at_marker:
  assumes "concat ((x # xs) # cs) = SYNC_BYTE_1 # SYNC_BYTE_2 # body @ rest"
    and "length body = PACKET_LEN - 2"
    and "pair_unbroken 0 ((x # xs) # cs)"
  shows "\<exists>ser'. find_sync ((x # xs) # cs) = Some (SYNC_BYTE_1 # SYNC_BYTE_2 # body, ser')
           \<and> concat ser' = rest"
proof -
  let ?s1 = "if xs = [] then cs else xs # cs"
  from assms(1) have x: "x = SYNC_BYTE_1"
    and cat: "concat ((x # xs) # cs) = x # SYNC_BYTE_2 # (body @ rest)"
    by auto
  from pair_unbroken_second [OF assms(3) cat] obtain s2
    where s2: "ser_read ?s1 1 = ([SYNC_BYTE_2], s2)" and cat2: "concat s2 = body @ rest"
    by blast
  from assms(2) cat2 read_exact_loop_supplied [of "[]" "PACKET_LEN - 2" s2]
  obtain ser' where "read_exact s2 (PACKET_LEN - 2) = Some (body, ser')" "concat ser' = rest"
    by (auto simp: read_exact_def)
  moreover have "find_sync ((x # xs) # cs) =
      (case read_exact s2 (PACKET_LEN - 2) of
         None \<Rightarrow> None
       | Some (rest, ser3) \<Rightarrow> Some ([SYNC_BYTE_1, SYNC_BYTE_2] @ rest, ser3))"
    unfolding find_sync_first [OF x] s2 by simp
  ultimately show ?thesis by simp
qed

lemma noise_skippable_tail:
  "noise_skippable (x # xs) \<Longrightarrow> x \<noteq> SYNC_BYTE_1 \<Longrightarrow> noise_skippable xs"
  by (cases xs) auto

lemma sync_1_followed_Cons:
  "sync_1_followed (x # ys) \<longleftrightarrow>
   (x = SYNC_BYTE_1 \<longrightarrow> ys \<noteq> [] \<and> hd ys \<noteq> SYNC_BYTE_1 \<and> hd ys \<noteq> SYNC_BYTE_2) \<and> sync_1_followed ys"
proof
  assume f: "sync_1_followed (x # ys)"
  have "sync_1_followed ys"
    unfolding sync_1_followed_def
  proof (intro allI impI)
    fix i assume "i < length ys" "ys ! i = SYNC_BYTE_1"
    with f [unfolded sync_1_followed_def, rule_format, of "Suc i"]
    show "Suc i < length ys \<and> ys ! Suc i \<noteq> SYNC_BYTE_1 \<and> ys ! Suc i \<noteq> SYNC_BYTE_2"
      by simp
  qed
  moreover from f [unfolded sync_1_followed_def, rule_format, of 0]
  have "x = SYNC_BYTE_1 \<longrightarrow> ys \<noteq> [] \<and> hd ys \<noteq> SYNC_BYTE_1 \<and> hd ys \<noteq> SYNC_BYTE_2"
    by (cases ys) auto
  ultimately show "(x = SYNC_BYTE_1 \<longrightarrow> ys \<noteq> [] \<and> hd ys \<noteq> SYNC_BYTE_1 \<and> hd ys \<noteq> SYNC_BYTE_2)
      \<and> sync_1_followed ys" by simp
next
  assume a: "(x = SYNC_BYTE_1 \<longrightarrow> ys \<noteq> [] \<and> hd ys \<noteq> SYNC_BYTE_1 \<and> hd ys \<noteq> SYNC_BYTE_2)
      \<and> sync_1_followed ys"
  show "sync_1_followed (x # ys)"
    unfolding sync_1_followed_def
  proof (intro allI impI)
    fix i assume i: "i < length (x # ys)" "(x # ys) ! i = SYNC_BYTE_1"
    show "Suc i < length (x # ys) \<and> (x # ys) ! Suc i \<noteq> SYNC_BYTE_1
        \<and> (x # ys) ! Suc i \<noteq> SYNC_BYTE_2"
    proof (cases i)
      case 0
      with i a show ?thesis by (cases ys) auto
    next
      case (Suc j)
      with i a [THEN conjunct2, unfolded sync_1_followed_def, rule_format, of j]
      show ?thesis by simp
    qed
  qed
qed

lemma noise_skippable_iff: "noise_skippable noise \<longleftrightarrow> sync_1_followed noise"
proof (induction noise rule: noise_skippable.induct)
  case 1
  then show ?case by (simp add: sync_1_followed_def)
next
  case (2 x)
  then show ?case by (simp add: sync_1_followed_def)
next
  case (3 x y zs)
  then show ?case by (auto simp: sync_1_followed_Cons [of x] sync_1_followed_Cons [of y])
qed

lemma read_one_cases:
  obtains (timeout) s' where "ser_read s 1 = ([], s')" "concat s' = concat s"
      "\<And>k. pair_unbroken k s \<Longrightarrow> pair_unbroken k s'"
      "s \<noteq> [] \<Longrightarrow> length (concat s') + length s' < length (concat s) + length s"
  | (byte) x xs cs where "ser_read s 1 = ([x], if xs = [] then cs else xs # cs)"
      "s = (x # xs) # cs"
proof (cases s)
  case Nil
  then show thesis by (intro timeout [of "[]"]) simp_all
next
  case (Cons c cs)
  show thesis
  proof (cases c)
    case Nil
    with Cons show thesis by (intro timeout [of cs]) simp_all
  next
    case c: (Cons x xs)
    with Cons show thesis by (intro byte [of x xs cs]) (simp_all only: ser_read_one)
  qed
qed

lemma find_sync_read_timeout:
  "ser_read ser 1 = ([], s') \<Longrightarrow> find_sync ser = find_sync s'"
  by (subst find_sync.simps) simp

lemma find_sync_read_other:
  "ser_read ser 1 = ([x], s') \<Longrightarrow> x \<noteq> SYNC_BYTE_1 \<Longrightarrow> find_sync ser = find_sync s'"
  by (subst find_sync.simps) simp

lemma find_sync_read_sync_timeout:
  "ser_read ser 1 = ([SYNC_BYTE_1], s') \<Longrightarrow> ser_read s' 1 = ([], s2) \<Longrightarrow>
   find_sync ser = find_sync s2"
  by (subst find_sync.simps) simp

lemma find_sync_read_sync_other:
  "ser_read ser 1 = ([SYNC_BYTE_1], s') \<Longrightarrow> ser_read s' 1 = ([y], s2) \<Longrightarrow> y \<noteq> SYNC_BYTE_2 \<Longrightarrow>
   find_sync ser = find_sync s2"
  by (subst find_sync.simps) simp

lemma find_sync_locates:
  assumes "concat ser = noise @ frame @ rest"
    and "noise_skippable noise"
    and "length frame = PACKET_LEN"
    and "take 2 frame = [SYNC_BYTE_1, SYNC_BYTE_2]"
    and "pair_unbroken (length noise) ser"
  shows "\<exists>ser'. find_sync ser = Some (frame, ser') \<and> concat ser' = rest"
  using assms
proof (induction "length (concat ser) + length ser" arbitrary: ser noise rule: less_induct)
  case less
  from less.prems(3,4) obtain body where frame: "frame = SYNC_BYTE_1 # SYNC_BYTE_2 # body"
    by (cases frame; cases "tl frame") (auto simp: PACKET_LEN_def)
  with less.prems(1) have ne: "ser \<noteq> []" by auto
  show ?case
  proof (cases ser rule: read_one_cases)
    case (timeout s')
    with ne less.prems
    have "\<exists>ser'. find_sync s' = Some (frame, ser') \<and> concat ser' = rest"
      by (intro less.hyps [of s' noise]) simp_all
    with find_sync_read_timeout [OF timeout(1)] show ?thesis by simp
  next
    case (byte x xs cs)
    let ?s1 = "if xs = [] then cs else xs # cs"
    have cat1: "concat ser = x # concat ?s1" using byte(2) by simp
    have less1: "length (concat ?s1) + length ?s1 < length (concat ser) + length ser"
      using byte(2) by simp
    show ?thesis
    proof (cases noise)
      case Nil
      from less.prems(3) frame have "length body = PACKET_LEN - 2" by simp
      moreover from Nil less.prems(1) frame byte(2)
      have "concat ((x # xs) # cs) = SYNC_BYTE_1 # SYNC_BYTE_2 # body @ rest" by simp
      moreover from Nil less.prems(5) byte(2) have "pair_unbroken 0 ((x # xs) # cs)" by simp
      ultimately show ?thesis
        using find_sync_at_marker [of x xs cs body rest] frame byte(2) by simp
    next
      case noise: (Cons y noise')
      with less.prems(1) cat1 have y: "y = x" and cat1': "concat ?s1 = noise' @ frame @ rest"
        by simp_all
      from less.prems(5) noise byte(2) have unb1: "pair_unbroken (length noise') ?s1"
        using pair_unbroken_skip [of "length noise'" x xs cs] by simp
      show ?thesis
      proof (cases "x = SYNC_BYTE_1")
        case False
        with less.prems(2) noise y have "noise_skippable noise'"
          by (auto dest: noise_skippable_tail)
        with cat1' unb1 less.prems(3,4)
        have "\<exists>ser'. find_sync ?s1 = Some (frame, ser') \<and> concat ser' = rest"
          by (intro less.hyps [OF less1, of noise']) 
        with find_sync_read_other [OF byte(1) False] show ?thesis by simp
      next
        case True
        with less.prems(2) noise y obtain y' zs where noise': "noise' = y' # zs"
          and y': "y' \<noteq> SYNC_BYTE_1" "y' \<noteq> SYNC_BYTE_2" and zs: "noise_skippable zs"
          by (cases noise') auto
        from y'(1) zs noise' have sk': "noise_skippable noise'"
          by (cases zs) auto
        from cat1' noise' have ne1: "?s1 \<noteq> []" by auto
        from byte(1) True have r1: "ser_read ser 1 = ([SYNC_BYTE_1], ?s1)" by simp
        show ?thesis
        proof (cases ?s1 rule: read_one_cases)
          case (timeout s2)
          from timeout(4) [OF ne1] less1
          have "length (concat s2) + length s2 < length (concat ser) + length ser" by simp
          moreover from timeout(2) cat1' have "concat s2 = noise' @ frame @ rest" by simp
          moreover from timeout(3) [OF unb1] have "pair_unbroken (length noise') s2" .
          ultimately have "\<exists>ser'. find_sync s2 = Some (frame, ser') \<and> concat ser' = rest"
            using sk' less.prems(3,4) by (intro less.hyps [of s2 noise'])
          with find_sync_read_sync_timeout [OF r1 timeout(1)] show ?thesis by simp
        next
          case (byte x2 xs2 cs2)
          let ?s2 = "if xs2 = [] then cs2 else xs2 # cs2"
          from cat1' have "concat ((x2 # xs2) # cs2) = noise' @ frame @ rest"
            unfolding byte(2) .
          with noise' have x2: "x2 = y'" and cat2: "concat ?s2 = zs @ frame @ rest"
            by auto
          from unb1 noise' byte(2) have "pair_unbroken (length zs) ?s2"
            using pair_unbroken_skip [of "length zs" x2 xs2 cs2] by simp
          moreover from byte(2) less1
          have "length (concat ?s2) + length ?s2 < length (concat ser) + length ser"
            by (simp split: if_splits)
          ultimately have "\<exists>ser'. find_sync ?s2 = Some (frame, ser') \<and> concat ser' = rest"
            using cat2 zs less.prems(3,4) by (intro less.hyps [of ?s2 zs])
          with find_sync_read_sync_other [OF r1 byte(1)] x2 y'(2) show ?thesis by simp
        qed
      qed
    qed
  qed
qed

section \<open>Validation and decoding\<close>

lemma raw_value_eq: "raw_value high low = 256 * uint high + uint low"
proof -
  have "push_bit 8 (uint high) AND uint low = 0"
    by (rule bit_eqI) (auto simp: bit_simps dest: bit_imp_le_length)
  then show ?thesis
    by (simp add: raw_value_def disjunctive_add_eq_or [symmetric] push_bit_eq_mult)
qed

lemma parse_loop_in_range:
  "offset + 2 * k \<le> length packet \<Longrightarrow>
   parse_loop k packet offset vals =
     Inr (vals @ map (\<lambda>i. real_of_int (raw_value (packet ! (offset + 2 * i))
                                           (packet ! (offset + 2 * i + 1)))) [0..<k])"
proof (induction k arbitrary: offset vals)
  case 0
  then show ?case by simp
next
  case (Suc k)
  have "[0..<Suc k] = 0 # map Suc [0..<k]"
    by (simp add: upt_conv_Cons map_Suc_upt del: upt_Suc)
  with Suc.prems Suc.IH [of "offset + 2"] show ?case
    by (simp add: py_index_def comp_def del: upt_Suc)
qed

lemma parse_values_closed:
  "length packet = PACKET_LEN \<Longrightarrow> parse_values packet = Inr (channel_values packet)"
  by (simp add: parse_values_def channel_values_def parse_loop_in_range PACKET_LEN_def)

lemma lost_sync_closed:
  "length packet = PACKET_LEN \<Longrightarrow>
   lost_sync packet =
     Inr (\<not> (packet ! 0 = SYNC_BYTE_1 \<and> packet ! 1 = SYNC_BYTE_2
              \<and> packet ! (PACKET_LEN - 1) = END_BYTE))"
  by (cases "packet = []")
     (auto simp: lost_sync_def py_index_def py_last_def PACKET_LEN_def NUM_CHANNELS_def
        last_conv_nth)

section \<open>The main loop\<close>

lemma loop_iteration_consumes:
  assumes "loop_iteration st = Some (Inr st')"
  shows "length (concat (port_rx st')) < length (concat (port_rx st))"
proof -
  from assms obtain packet rx1 where r: "read_exact (port_rx st) PACKET_LEN = Some (packet, rx1)"
    by (auto simp: loop_iteration_def split: option.splits)
  from read_exact_sound [OF r]
  have p: "length packet = PACKET_LEN" "concat (port_rx st) = packet @ concat rx1" by simp_all
  have "length (concat (port_rx st')) \<le> length (concat rx1)"
  proof (cases "port_rx st' = rx1")
    case True
    then show ?thesis by simp
  next
    case False
    with assms r obtain p' where "find_sync rx1 = Some (p', port_rx st')"
      by (auto simp: loop_iteration_def split: sum.splits bool.splits option.splits)
    from find_sync_sound [OF this] show ?thesis by auto
  qed
  with p show ?thesis by (simp add: PACKET_LEN_def)
qed

text \<open>
  \<^verbatim>\<open>while True:\<close> never returns. On a device that falls silent after finitely many
  bursts the loop ends up polling for ever inside one read, and \<open>bridge_loop\<close> gives the
  state of the bridge when that happens (all bursts used up, the outlet holding every
  sample that was pushed) or the exception that left the loop.
\<close>

function bridge_loop :: "bridge \<Rightarrow> error + bridge" where
  "bridge_loop st =
     (case loop_iteration st of
        None \<Rightarrow> Inr (st\<lparr>port_rx := []\<rparr>)
      | Some (Inl e) \<Rightarrow> Inl e
      | Some (Inr st') \<Rightarrow> bridge_loop st')"
  by pat_completeness auto
termination
  by (relation "measure (\<lambda>st. length (concat (port_rx st)))")
     (auto dest: loop_iteration_consumes)

text \<open>
  \<^verbatim>\<open>main\<close>, on the port as \<^verbatim>\<open>reset_input_buffer\<close> leaves it:
  \<^verbatim>\<open>
  print(f"Opening serial port {PORT} at {BAUD} baud...")
  ...
  (the handshake)
  print("Sent START command, waiting for packets...")
  info = StreamInfo(...)
  outlet = StreamOutlet(info)
  print("<U+00E2><U+0153><U+2026> LSL stream 'EMG_Stream' (6 ch, 500 Hz) created.")
  packet = find_sync(ser)
  print("Sync found, starting main loop...")
  sample_count = 0
  while True: ...
  \<close>
  The text of the third \<^verbatim>\<open>print\<close> begins with the three characters \<^verbatim>\<open>U+00E2\<close>,
  \<^verbatim>\<open>U+0153\<close> and \<^verbatim>\<open>U+2026\<close> (the bytes \<^verbatim>\<open>C3 A2 C5 93 E2 80 A6\<close> of the source file,
  which is declared as UTF-8). The packet of the first \<^verbatim>\<open>find_sync\<close> is assigned and
  then overwritten by the first \<^verbatim>\<open>read_exact\<close> of the loop.
\<close>

definition main :: "console \<Rightarrow> nat \<Rightarrow> serial \<Rightarrow> error + bridge" where
  "main enc in_waiting rx =
     (let st = \<lparr>port_rx = rx, port_tx = [], outlet = [], sample_count = 0\<rparr>
      in case py_print enc
                (map of_char ''Opening serial port COM12 at 230400 baud...'' @ [0x0A]) of
           Inl e \<Rightarrow> Inl e
         | Inr u \<Rightarrow>
        (case handshake enc in_waiting st of
           Inl (e, st') \<Rightarrow> Inl e
         | Inr (reply, st1) \<Rightarrow>
        (case py_print enc
                (map of_char ''Sent START command, waiting for packets...'' @ [0x0A]) of
           Inl e \<Rightarrow> Inl e
         | Inr u \<Rightarrow>
        (case py_print enc
                ([0xE2, 0x153, 0x2026] @ map of_char '' LSL stream '' @ [0x27]
                   @ map of_char ''EMG_Stream'' @ [0x27]
                   @ map of_char '' (6 ch, 500 Hz) created.'' @ [0x0A]) of
           Inl e \<Rightarrow> Inl e
         | Inr u \<Rightarrow>
        (case find_sync (port_rx st1) of
           None \<Rightarrow> Inr (st1\<lparr>port_rx := []\<rparr>)
         | Some (packet, rx') \<Rightarrow>
        (case py_print enc (map of_char ''Sync found, starting main loop...'' @ [0x0A]) of
           Inl e \<Rightarrow> Inl e
         | Inr u \<Rightarrow> bridge_loop (st1\<lparr>port_rx := rx', sample_count := 0\<rparr>)))))))"

lemma in_order_gap: "in_order ps bs \<Longrightarrow> in_order ps (g @ bs)"
proof (cases ps)
  case Nil
  then show ?thesis by simp
next
  case (Cons p ps')
  assume "in_order ps bs"
  with Cons obtain gap rest where "bs = gap @ p @ rest" "in_order ps' rest" by auto
  then have "g @ bs = (g @ gap) @ p @ rest \<and> in_order ps' rest" by simp
  with Cons show ?thesis by (simp del: append_assoc) blast
qed

lemma read_exact_starved: "length (concat ser) < n \<Longrightarrow> read_exact ser n = None"
proof (cases "read_exact ser n")
  case None
  then show ?thesis .
next
  case (Some r)
  assume short: "length (concat ser) < n"
  from Some read_exact_sound [of ser n "fst r" "snd r"]
  have "length (fst r) = n" "concat ser = fst r @ concat (snd r)" by simp_all
  with short show ?thesis by simp
qed

lemma read_exact_supplied:
  "n \<le> length (concat ser) \<Longrightarrow>
   \<exists>ser'. read_exact ser n = Some (take n (concat ser), ser') \<and> concat ser' = drop n (concat ser)"
  using read_exact_loop_supplied [of "[]" n ser] by (simp add: read_exact_def)

lemma loop_iteration_cases:
  obtains (blocked) "loop_iteration st = None"
  | (rejected) packet skipped packet' rx2 where
      "concat (port_rx st) = packet @ skipped @ packet' @ concat rx2"
      "length packet = PACKET_LEN" "lost_sync packet = Inr True"
      "loop_iteration st = Some (Inr (st\<lparr>port_rx := rx2\<rparr>))"
  | (accepted) packet rx1 where
      "concat (port_rx st) = packet @ concat rx1"
      "length packet = PACKET_LEN" "lost_sync packet = Inr False"
      "loop_iteration st = Some (Inr (st\<lparr>port_rx := rx1,
          outlet := outlet st @ [channel_values packet],
          sample_count := sample_count st + 1\<rparr>))"
      "read_exact (port_rx st) PACKET_LEN = Some (packet, rx1)"
proof (cases "read_exact (port_rx st) PACKET_LEN")
  case None
  then have "loop_iteration st = None" by (simp add: loop_iteration_def)
  then show thesis by (rule blocked)
next
  case (Some r)
  obtain packet rx1 where r: "r = (packet, rx1)" by (cases r)
  from read_exact_sound [of "port_rx st" PACKET_LEN packet rx1] Some r
  have len: "length packet = PACKET_LEN" and cat: "concat (port_rx st) = packet @ concat rx1"
    by simp_all
  show thesis
  proof (cases "lost_sync packet = Inr False")
    case True
    with Some r len have "loop_iteration st = Some (Inr (st\<lparr>port_rx := rx1,
          outlet := outlet st @ [channel_values packet],
          sample_count := sample_count st + 1\<rparr>))"
      by (simp add: loop_iteration_def parse_values_closed)
    with cat len True show thesis using Some r by (intro accepted [of packet rx1]) simp_all
  next
    case False
    with lost_sync_closed [OF len] have lost: "lost_sync packet = Inr True" by auto
    show thesis
    proof (cases "find_sync rx1")
      case None
      with Some r lost have "loop_iteration st = None" by (simp add: loop_iteration_def)
      then show thesis by (rule blocked)
    next
      case found: (Some r')
      obtain packet' rx2 where r': "r' = (packet', rx2)" by (cases r')
      from find_sync_sound [OF found] r' obtain skipped
        where "concat rx1 = skipped @ packet' @ concat rx2" by auto
      with cat have "concat (port_rx st) = packet @ skipped @ packet' @ concat rx2" by simp
      moreover from Some r lost found r'
      have "loop_iteration st = Some (Inr (st\<lparr>port_rx := rx2\<rparr>))"
        by (simp add: loop_iteration_def)
      ultimately show thesis using len lost by (intro rejected [of packet skipped packet' rx2])
    qed
  qed
qed



text \<open>
  The packets that the \<^verbatim>\<open>read_exact\<close> of the loop returns and that its sanity check lets
  pass, in the order in which they are read: the reads and the checks of the loop without
  what it does to an accepted packet.
\<close>

function accepted_packets :: "serial \<Rightarrow> byte list list" where
  "accepted_packets rx =
     (case read_exact rx PACKET_LEN of
        None \<Rightarrow> []
      | Some (packet, rx1) \<Rightarrow>
          (case lost_sync packet of
             Inl e \<Rightarrow> []
           | Inr True \<Rightarrow>
               (case find_sync rx1 of
                  None \<Rightarrow> []
                | Some (packet', rx2) \<Rightarrow> accepted_packets rx2)
           | Inr False \<Rightarrow> packet # accepted_packets rx1))"
  by pat_completeness auto
termination
proof (relation "measure (\<lambda>rx. length (concat rx))")
  show "wf (measure (\<lambda>rx. length (concat rx)))" by simp
next
  fix rx r packet rx1 b r' packet' rx2
  assume "read_exact rx PACKET_LEN = Some r" "(packet, rx1) = r"
    and "find_sync rx1 = Some r'" "(packet', rx2) = r'"
  then have "length packet = PACKET_LEN" "concat rx = packet @ concat rx1"
    and "length (concat rx2) \<le> length (concat rx1)"
    using read_exact_sound [of rx PACKET_LEN packet rx1] find_sync_sound [of rx1 r'] by auto
  then show "(rx2, rx) \<in> measure (\<lambda>rx. length (concat rx))"
    by (simp add: PACKET_LEN_def)
next
  fix rx r packet rx1
  assume "read_exact rx PACKET_LEN = Some r" "(packet, rx1) = r"
  then have "length packet = PACKET_LEN" "concat rx = packet @ concat rx1"
    using read_exact_sound [of rx PACKET_LEN packet rx1] by auto
  then show "(rx1, rx) \<in> measure (\<lambda>rx. length (concat rx))"
    by (simp add: PACKET_LEN_def)
qed

declare accepted_packets.simps [simp del]

lemma accepted_packets_blocked:
  "read_exact rx PACKET_LEN = None \<Longrightarrow> accepted_packets rx = []"
  by (subst accepted_packets.simps) simp

lemma accepted_packets_accept:
  "read_exact rx PACKET_LEN = Some (packet, rx1) \<Longrightarrow> lost_sync packet = Inr False \<Longrightarrow>
   accepted_packets rx = packet # accepted_packets rx1"
  by (subst accepted_packets.simps) simp

lemma accepted_packets_reject:
  "read_exact rx PACKET_LEN = Some (packet, rx1) \<Longrightarrow> lost_sync packet = Inr True \<Longrightarrow>
   accepted_packets rx =
     (case find_sync rx1 of None \<Rightarrow> [] | Some (packet', rx2) \<Rightarrow> accepted_packets rx2)"
  by (subst accepted_packets.simps) simp

lemma accepted_packets_valid:
  "p \<in> set (accepted_packets rx) \<Longrightarrow> length p = PACKET_LEN \<and> lost_sync p = Inr False"
proof (induction rx rule: accepted_packets.induct)
  case (1 rx)
  show ?case
  proof (cases "read_exact rx PACKET_LEN")
    case None
    with "1.prems" show ?thesis by (simp add: accepted_packets_blocked)
  next
    case (Some r)
    obtain packet rx1 where r: "r = (packet, rx1)" by (cases r)
    from read_exact_sound [of rx PACKET_LEN packet rx1] Some r
    have len: "length packet = PACKET_LEN" by simp
    show ?thesis
    proof (cases "lost_sync packet = Inr False")
      case True
      with "1.prems" Some r have "p = packet \<or> p \<in> set (accepted_packets rx1)"
        by (simp add: accepted_packets_accept)
      with "1.IH"(2) [OF Some r [symmetric] True refl] len True show ?thesis by auto
    next
      case False
      with lost_sync_closed [OF len] have lost: "lost_sync packet = Inr True" by auto
      show ?thesis
      proof (cases "find_sync rx1")
        case None
        with "1.prems" Some r lost show ?thesis by (simp add: accepted_packets_reject)
      next
        case found: (Some r')
        obtain packet' rx2 where r': "r' = (packet', rx2)" by (cases r')
        from "1.prems" Some r lost found r' have "p \<in> set (accepted_packets rx2)"
          by (simp add: accepted_packets_reject)
        with "1.IH"(1) [OF Some r [symmetric] lost refl found r' [symmetric]] show ?thesis .
      qed
    qed
  qed
qed

lemma accepted_packets_in_order: "in_order (accepted_packets rx) (concat rx)"
proof (induction rx rule: accepted_packets.induct)
  case (1 rx)
  show ?case
  proof (cases "read_exact rx PACKET_LEN")
    case None
    then show ?thesis by (simp add: accepted_packets_blocked)
  next
    case (Some r)
    obtain packet rx1 where r: "r = (packet, rx1)" by (cases r)
    from read_exact_sound [of rx PACKET_LEN packet rx1] Some r
    have len: "length packet = PACKET_LEN" and cat: "concat rx = packet @ concat rx1"
      by simp_all
    show ?thesis
    proof (cases "lost_sync packet = Inr False")
      case True
      from "1.IH"(2) [OF Some r [symmetric] True refl]
      have "in_order (accepted_packets rx1) (concat rx1)" .
      then have "in_order (packet # accepted_packets rx1) ([] @ packet @ concat rx1)"
        unfolding in_order.simps by blast
      with Some r True cat show ?thesis by (simp add: accepted_packets_accept)
    next
      case False
      with lost_sync_closed [OF len] have lost: "lost_sync packet = Inr True" by auto
      show ?thesis
      proof (cases "find_sync rx1")
        case None
        with Some r lost show ?thesis by (simp add: accepted_packets_reject)
      next
        case found: (Some r')
        obtain packet' rx2 where r': "r' = (packet', rx2)" by (cases r')
        from find_sync_sound [OF found] r' obtain skipped
          where "concat rx1 = skipped @ packet' @ concat rx2" by auto
        with cat have "concat rx = (packet @ skipped @ packet') @ concat rx2" by simp
        moreover from "1.IH"(1) [OF Some r [symmetric] lost refl found r' [symmetric]]
        have "in_order (accepted_packets rx2) (concat rx2)" .
        ultimately have "in_order (accepted_packets rx2) (concat rx)"
          by (simp only: in_order_gap)
        with Some r lost found r' show ?thesis by (simp add: accepted_packets_reject)
      qed
    qed
  qed
qed

lemma bridge_loop_accepted:
  "bridge_loop st = Inr (st\<lparr>port_rx := [],
       outlet := outlet st @ map channel_values (accepted_packets (port_rx st)),
       sample_count := sample_count st + int (length (accepted_packets (port_rx st)))\<rparr>)"
proof (induction st rule: bridge_loop.induct)
  case (1 st)
  show ?case
  proof (cases "read_exact (port_rx st) PACKET_LEN")
    case None
    then have "loop_iteration st = None" by (simp add: loop_iteration_def)
    with None show ?thesis by (simp add: accepted_packets_blocked)
  next
    case (Some r)
    obtain packet rx1 where r: "r = (packet, rx1)" by (cases r)
    from read_exact_sound [of "port_rx st" PACKET_LEN packet rx1] Some r
    have len: "length packet = PACKET_LEN" by simp
    show ?thesis
    proof (cases "lost_sync packet = Inr False")
      case True
      let ?st' = "st\<lparr>port_rx := rx1, outlet := outlet st @ [channel_values packet],
          sample_count := sample_count st + 1\<rparr>"
      from Some r len True have it: "loop_iteration st = Some (Inr ?st')"
        by (simp add: loop_iteration_def parse_values_closed)
      from "1.IH" [OF it refl] it Some r True show ?thesis
        by (simp add: accepted_packets_accept)
    next
      case False
      with lost_sync_closed [OF len] have lost: "lost_sync packet = Inr True" by auto
      show ?thesis
      proof (cases "find_sync rx1")
        case None
        with Some r lost have "loop_iteration st = None" by (simp add: loop_iteration_def)
        with Some r lost None show ?thesis by (simp add: accepted_packets_reject)
      next
        case found: (Some r')
        obtain packet' rx2 where r': "r' = (packet', rx2)" by (cases r')
        from Some r lost found r'
        have it: "loop_iteration st = Some (Inr (st\<lparr>port_rx := rx2\<rparr>))"
          by (simp add: loop_iteration_def)
        from "1.IH" [OF it refl] it Some r lost found r' show ?thesis
          by (simp add: accepted_packets_reject)
      qed
    qed
  qed
qed

lemma bridge_loop_frames:
  "concat (port_rx st) = concat frames \<Longrightarrow>
   \<forall>f\<in>set frames. length f = PACKET_LEN \<and> lost_sync f = Inr False \<Longrightarrow>
   bridge_loop st = Inr (st\<lparr>port_rx := [],
       outlet := outlet st @ map channel_values frames,
       sample_count := sample_count st + int (length frames)\<rparr>)"
proof (induction frames arbitrary: st)
  case Nil
  then have "read_exact (port_rx st) PACKET_LEN = None"
    by (intro read_exact_starved) (simp add: PACKET_LEN_def del: concat_eq_Nil_conv)
  then have "loop_iteration st = None" by (simp add: loop_iteration_def)
  then show ?case by simp
next
  case (Cons f fs)
  from Cons.prems have f: "length f = PACKET_LEN" "lost_sync f = Inr False" by simp_all
  with Cons.prems(1) read_exact_supplied [of PACKET_LEN "port_rx st"]
  obtain rx1 where r: "read_exact (port_rx st) PACKET_LEN = Some (f, rx1)"
    and cat: "concat rx1 = concat fs"
    by auto
  let ?st' = "st\<lparr>port_rx := rx1, outlet := outlet st @ [channel_values f],
          sample_count := sample_count st + 1\<rparr>"
  from r f have it: "loop_iteration st = Some (Inr ?st')"
    by (simp add: loop_iteration_def parse_values_closed)
  from cat Cons.prems(2) have "bridge_loop ?st' = Inr (?st'\<lparr>port_rx := [],
       outlet := outlet ?st' @ map channel_values fs,
       sample_count := sample_count ?st' + int (length fs)\<rparr>)"
    by (intro Cons.IH) simp_all
  with it show ?case by simp
qed


section \<open>The claims about reading, validation and decoding\<close>

text \<open>
  C9: when the bursts still to come hold at least \<open>n\<close> bytes, \<^verbatim>\<open>read_exact(ser, n)\<close>
  returns, and what it returns is exactly the next \<open>n\<close> bytes of the stream in their
  order, the port being left at the byte after them; a read that comes back empty is
  retried and changes nothing; for \<open>n = 0\<close> the empty byte string is returned and the
  port is not read.
\<close>

theorem read_exact_next_n_bytes:
  "(n \<le> length (concat ser) \<longrightarrow>
      (\<exists>ser'. read_exact ser n = Some (take n (concat ser), ser')
          \<and> concat ser' = drop n (concat ser)))
   \<and> (0 < n \<longrightarrow> read_exact ([] # ser) n = read_exact ser n)
   \<and> read_exact ser 0 = Some ([], ser)"
proof (intro conjI impI)
  assume "n \<le> length (concat ser)"
  then show "\<exists>ser'. read_exact ser n = Some (take n (concat ser), ser')
      \<and> concat ser' = drop n (concat ser)"
    using read_exact_loop_supplied [of "[]" n ser] by (simp add: read_exact_def)
next
  assume "0 < n"
  then show "read_exact ([] # ser) n = read_exact ser n"
    by (simp add: read_exact_def read_exact_loop_burst)
next
  show "read_exact ser 0 = Some ([], ser)"
    by (simp add: read_exact_def read_exact_loop_done)
qed

theorem read_exact_next_n_bytes_witness:
  "(3::nat) \<le> length (concat [[1], [], [2, 3, 4 :: byte]])
   \<and> (0::nat) < 3
   \<and> (\<exists>ser'. read_exact [[1], [], [2, 3, 4]] 3 = Some ([1, 2, 3], ser') \<and> concat ser' = [4])
   \<and> read_exact [[], [1], [], [2, 3, 4]] 3 = read_exact [[1], [], [2, 3, 4]] 3"
  using read_exact_next_n_bytes [of 3 "[[1], [], [2, 3, 4]]"] by simp

text \<open>
  C4: a frame of \<^verbatim>\<open>PACKET_LEN\<close> bytes always decodes, to \<^verbatim>\<open>NUM_CHANNELS\<close> values; the
  \<open>i\<close>-th is \<^verbatim>\<open>(packet[3+2i] << 8) | packet[3+2i+1]\<close>, which is the big-endian number
  \<open>256 * packet[3+2i] + packet[3+2i+1]\<close>, unscaled. The result is a function of the frame
  alone. The frame \<^verbatim>\<open>C7 7C 00 00 01 00 02 00 03 00 04 00 05 00 06 01\<close> decodes to
  \<open>[1, 2, 3, 4, 5, 6]\<close>.
\<close>

theorem parse_values_big_endian:
  "(length packet = PACKET_LEN \<longrightarrow>
      (\<exists>vals. parse_values packet = Inr vals \<and> length vals = 6
         \<and> (\<forall>i<6. vals ! i
                  = real_of_int (push_bit 8 (uint (packet ! (3 + 2 * i)))
                                   OR uint (packet ! (3 + 2 * i + 1)))
                \<and> vals ! i
                  = 256 * real (unat (packet ! (3 + 2 * i))) + real (unat (packet ! (3 + 2 * i + 1))))))
   \<and> NUM_CHANNELS = 6
   \<and> parse_values frame_1_to_6 = Inr [1, 2, 3, 4, 5, 6]"
proof (intro conjI impI)
  assume len: "length packet = PACKET_LEN"
  have "channel_values packet ! i
          = real_of_int (push_bit 8 (uint (packet ! (3 + 2 * i))) OR uint (packet ! (3 + 2 * i + 1)))
        \<and> channel_values packet ! i
          = 256 * real (unat (packet ! (3 + 2 * i))) + real (unat (packet ! (3 + 2 * i + 1)))"
    if "i < 6" for i
  proof -
    from that have "channel_values packet ! i
        = real_of_int (raw_value (packet ! (3 + 2 * i)) (packet ! (3 + 2 * i + 1)))"
      by (simp add: channel_values_def NUM_CHANNELS_def del: upt_Suc)
    then show ?thesis
      using raw_value_eq [of "packet ! (3 + 2 * i)" "packet ! (3 + 2 * i + 1)"]
      by (simp add: raw_value_def)
  qed
  moreover have "length (channel_values packet) = 6"
    by (simp add: channel_values_def NUM_CHANNELS_def del: upt_Suc)
  ultimately show "\<exists>vals. parse_values packet = Inr vals \<and> length vals = 6
         \<and> (\<forall>i<6. vals ! i
                  = real_of_int (push_bit 8 (uint (packet ! (3 + 2 * i)))
                                   OR uint (packet ! (3 + 2 * i + 1)))
                \<and> vals ! i
                  = 256 * real (unat (packet ! (3 + 2 * i))) + real (unat (packet ! (3 + 2 * i + 1))))"
    using parse_values_closed [OF len] by blast
next
  show "NUM_CHANNELS = 6" by (simp add: NUM_CHANNELS_def)
next
  show "parse_values frame_1_to_6 = Inr [1, 2, 3, 4, 5, 6]"
    by (simp add: frame_1_to_6_def parse_values_def NUM_CHANNELS_def parse_loop_in_range
          raw_value_eq upt_conv_Cons)
qed

theorem parse_values_big_endian_witness:
  "length frame_1_to_6 = PACKET_LEN \<and> (2::nat) < 6
   \<and> (\<exists>vals. parse_values frame_1_to_6 = Inr vals \<and> length vals = 6 \<and> vals ! 2 = 3)"
  using parse_values_big_endian [of frame_1_to_6]
  by (auto simp: frame_1_to_6_def PACKET_LEN_def NUM_CHANNELS_def)

text \<open>
  C7: the byte at offset 2, the packet counter, takes no part in the sanity check nor
  in the decoding: two frames of \<^verbatim>\<open>PACKET_LEN\<close> bytes that differ in it alone get the
  same verdict and the same channel values.
\<close>

theorem counter_byte_noninterference:
  "length packet = PACKET_LEN \<Longrightarrow>
   lost_sync (packet[2 := c]) = lost_sync packet
   \<and> parse_values (packet[2 := c]) = parse_values packet"
proof
  assume len: "length packet = PACKET_LEN"
  then have len': "length (packet[2 := c]) = PACKET_LEN" by simp
  from len show "lost_sync (packet[2 := c]) = lost_sync packet"
    unfolding lost_sync_closed [OF len] lost_sync_closed [OF len']
    by (simp add: PACKET_LEN_def NUM_CHANNELS_def)
  from len show "parse_values (packet[2 := c]) = parse_values packet"
    unfolding parse_values_closed [OF len] parse_values_closed [OF len']
    by (simp add: channel_values_def)
qed

theorem counter_byte_noninterference_witness:
  "length frame_1_to_6 = PACKET_LEN
   \<and> frame_1_to_6[2 := 0x2A] \<noteq> frame_1_to_6
   \<and> lost_sync (frame_1_to_6[2 := 0x2A]) = Inr False
   \<and> lost_sync frame_1_to_6 = Inr False
   \<and> parse_values (frame_1_to_6[2 := 0x2A]) = Inr [1, 2, 3, 4, 5, 6]"
proof -
  have len: "length frame_1_to_6 = PACKET_LEN"
    by (simp add: frame_1_to_6_def PACKET_LEN_def NUM_CHANNELS_def)
  have ok: "lost_sync frame_1_to_6 = Inr False"
    by (simp add: lost_sync_closed [OF len])
       (simp add: frame_1_to_6_def PACKET_LEN_def NUM_CHANNELS_def SYNC_BYTE_1_def
          SYNC_BYTE_2_def END_BYTE_def)
  have vals: "parse_values frame_1_to_6 = Inr [1, 2, 3, 4, 5, 6]"
    by (simp add: frame_1_to_6_def parse_values_def NUM_CHANNELS_def parse_loop_in_range
          raw_value_eq upt_conv_Cons)
  have "frame_1_to_6[2 := 0x2A] \<noteq> frame_1_to_6"
    by (simp add: frame_1_to_6_def)
  with len ok vals counter_byte_noninterference [OF len, of "0x2A"] show ?thesis
    by simp
qed

section \<open>Runs on given bursts\<close>

lemmas run_simps = find_sync_timeout find_sync_other find_sync_first find_sync_silent
  read_exact_def read_exact_loop_burst read_exact_loop_done read_exact_loop_silent
  SYNC_BYTE_1_def SYNC_BYTE_2_def END_BYTE_def PACKET_LEN_def NUM_CHANNELS_def

text \<open>
  C1 (evaluation of the code where the claim fails): the stream is one stray \<^verbatim>\<open>C7\<close>
  and then a frame. \<^verbatim>\<open>find_sync\<close> reads the stray byte as \<^verbatim>\<open>b\<close> and the \<^verbatim>\<open>C7\<close> of the
  frame as \<^verbatim>\<open>b2\<close>; \<^verbatim>\<open>b2\<close> is not \<^verbatim>\<open>7C\<close>, and the next iteration reads a new byte,
  the \<^verbatim>\<open>7C\<close> of the frame, as its candidate. The frame is passed over: with nothing
  behind it the call never returns, with a second frame behind it the second one is
  returned.
\<close>

theorem find_sync_passes_over_frame_after_stray_sync_byte:
  "find_sync [SYNC_BYTE_1 # frame_1_to_6] = None
   \<and> find_sync [SYNC_BYTE_1 # frame_1_to_6 @ frame_1_to_6[2 := 1]]
       = Some (frame_1_to_6[2 := 1], [])
   \<and> frame_1_to_6[2 := 1] \<noteq> frame_1_to_6"
  by (simp add: run_simps frame_1_to_6_def)

text \<open>
  C3 as the claim states it fails: two noise bytes \<^verbatim>\<open>C7 7C\<close> in front of the frame are
  taken for the marker, although the byte 15 places after them is not the terminator;
  \<^verbatim>\<open>find_sync\<close> checks no terminator and returns them with the first 14 bytes of
  the frame.
\<close>

theorem find_sync_marker_pair_in_noise_counterexample:
  "find_sync [[0xC7, 0x7C] @ frame_1_to_6]
     = Some ([0xC7, 0x7C] @ take 14 frame_1_to_6, [drop 14 frame_1_to_6])
   \<and> [0xC7, 0x7C] @ take 14 frame_1_to_6 \<noteq> frame_1_to_6
   \<and> ([0xC7, 0x7C] @ frame_1_to_6) ! 15 \<noteq> END_BYTE"
  by (simp add: run_simps frame_1_to_6_def)

text \<open>
  C3, amended: the stream is \<open>k\<close> noise bytes, then a \<^verbatim>\<open>PACKET_LEN\<close>-byte frame that
  begins with \<^verbatim>\<open>C7 7C\<close>, then anything; every \<^verbatim>\<open>C7\<close> of the noise is followed, in the
  noise, by a byte that is neither \<^verbatim>\<open>C7\<close> nor \<^verbatim>\<open>7C\<close>; and no read comes back empty
  between the two marker bytes of the frame. Then \<^verbatim>\<open>find_sync\<close> returns, and what it
  returns is exactly that frame, with the port left at the first byte after it: the
  \<open>k\<close> noise bytes and the frame are consumed, nothing more. The reads may come back
  empty anywhere else and cut the stream into bursts in any way.
\<close>

theorem find_sync_returns_frame_after_noise:
  assumes "concat ser = noise @ frame @ rest"
    and "noise_skippable noise"
    and "length frame = PACKET_LEN"
    and "take 2 frame = [SYNC_BYTE_1, SYNC_BYTE_2]"
    and "pair_unbroken (length noise) ser"
  shows "\<exists>ser'. find_sync ser = Some (frame, ser') \<and> concat ser' = rest"
  using assms by (rule find_sync_locates)

theorem find_sync_returns_frame_after_noise_witness:
  "concat [[0x00, 0x7C], [], [0xC7], [], [0x55] @ take 5 frame_1_to_6,
           drop 5 frame_1_to_6 @ [0xAA]]
     = [0x00, 0x7C, 0xC7, 0x55] @ frame_1_to_6 @ [0xAA]
   \<and> noise_skippable [0x00, 0x7C, 0xC7, 0x55]
   \<and> length frame_1_to_6 = PACKET_LEN
   \<and> take 2 frame_1_to_6 = [SYNC_BYTE_1, SYNC_BYTE_2]
   \<and> pair_unbroken (length [0x00, 0x7C, 0xC7, 0x55 :: byte])
         [[0x00, 0x7C], [], [0xC7], [], [0x55] @ take 5 frame_1_to_6,
          drop 5 frame_1_to_6 @ [0xAA]]
   \<and> (\<exists>ser'. find_sync
               [[0x00, 0x7C], [], [0xC7], [], [0x55] @ take 5 frame_1_to_6,
                drop 5 frame_1_to_6 @ [0xAA]]
             = Some (frame_1_to_6, ser')
           \<and> concat ser' = [0xAA])"
proof -
  let ?ser = "[[0x00, 0x7C], [], [0xC7], [], [0x55] @ take 5 frame_1_to_6,
               drop 5 frame_1_to_6 @ [0xAA]]"
  let ?noise = "[0x00, 0x7C, 0xC7, 0x55 :: byte]"
  have h1: "concat ?ser = ?noise @ frame_1_to_6 @ [0xAA]"
    by (simp add: frame_1_to_6_def)
  have h2: "noise_skippable ?noise"
    by (simp add: SYNC_BYTE_1_def SYNC_BYTE_2_def)
  have h3: "length frame_1_to_6 = PACKET_LEN"
    by (simp add: frame_1_to_6_def PACKET_LEN_def NUM_CHANNELS_def)
  have h4: "take 2 frame_1_to_6 = [SYNC_BYTE_1, SYNC_BYTE_2]"
    by (simp add: frame_1_to_6_def SYNC_BYTE_1_def SYNC_BYTE_2_def)
  have h5: "pair_unbroken (length ?noise) ?ser"
    by (simp add: frame_1_to_6_def)
  from find_sync_returns_frame_after_noise [OF h1 h2 h3 h4 h5] h1 h2 h3 h4 h5
  show ?thesis by blast
qed

section \<open>The claims about the loop and the handshake\<close>

lemmas loop_simps = loop_iteration_def lost_sync_def py_index_def py_last_def parse_values_def
  parse_loop_in_range raw_value_eq upt_conv_Cons

text \<open>
  C5: a frame of \<^verbatim>\<open>PACKET_LEN\<close> bytes passes the sanity check exactly when its first byte
  is \<^verbatim>\<open>C7\<close>, its second \<^verbatim>\<open>7C\<close> and its last \<^verbatim>\<open>01\<close>; the check always gives a
  verdict, and the same one for two frames that agree on these three bytes. An iteration
  of the loop that reads a frame failing the check pushes no sample and leaves
  \<^verbatim>\<open>sample_count\<close> as it is. The 16 bytes of the first scenario with \<^verbatim>\<open>02\<close> at the end are
  rejected, and the loop run on them publishes nothing.
\<close>

theorem packet_rejected_unless_markers_and_terminator:
  "(length packet = PACKET_LEN \<longrightarrow>
      (lost_sync packet = Inr False \<longleftrightarrow>
         packet ! 0 = SYNC_BYTE_1 \<and> packet ! 1 = SYNC_BYTE_2
         \<and> packet ! (PACKET_LEN - 1) = END_BYTE)
      \<and> (lost_sync packet = Inr False \<or> lost_sync packet = Inr True)
      \<and> (\<forall>q. length q = PACKET_LEN \<and> q ! 0 = packet ! 0 \<and> q ! 1 = packet ! 1
              \<and> q ! (PACKET_LEN - 1) = packet ! (PACKET_LEN - 1)
            \<longrightarrow> lost_sync q = lost_sync packet))
   \<and> (read_exact (port_rx st) PACKET_LEN = Some (packet, rx1) \<and> lost_sync packet = Inr True \<longrightarrow>
        (\<forall>r. loop_iteration st = Some r \<longrightarrow>
           (\<exists>st'. r = Inr st' \<and> outlet st' = outlet st \<and> sample_count st' = sample_count st)))
   \<and> lost_sync frame_bad_end = Inr True
   \<and> bridge_loop \<lparr>port_rx = [frame_bad_end], port_tx = [], outlet = [], sample_count = 0\<rparr>
       = Inr \<lparr>port_rx = [], port_tx = [], outlet = [], sample_count = 0\<rparr>"
proof (intro conjI impI allI)
  assume len: "length packet = PACKET_LEN"
  show "lost_sync packet = Inr False \<longleftrightarrow>
         packet ! 0 = SYNC_BYTE_1 \<and> packet ! 1 = SYNC_BYTE_2
         \<and> packet ! (PACKET_LEN - 1) = END_BYTE"
    by (auto simp: lost_sync_closed [OF len])
  show "lost_sync packet = Inr False \<or> lost_sync packet = Inr True"
    by (simp add: lost_sync_closed [OF len])
  fix q
  assume "length q = PACKET_LEN \<and> q ! 0 = packet ! 0 \<and> q ! 1 = packet ! 1
              \<and> q ! (PACKET_LEN - 1) = packet ! (PACKET_LEN - 1)"
  then show "lost_sync q = lost_sync packet"
    by (simp add: lost_sync_closed [OF len] lost_sync_closed [of q])
next
  fix r
  assume "read_exact (port_rx st) PACKET_LEN = Some (packet, rx1) \<and> lost_sync packet = Inr True"
    and "loop_iteration st = Some r"
  then show "\<exists>st'. r = Inr st' \<and> outlet st' = outlet st \<and> sample_count st' = sample_count st"
    by (auto simp: loop_iteration_def split: option.splits)
next
  show "lost_sync frame_bad_end = Inr True"
    by (simp add: frame_bad_end_def lost_sync_def py_index_def py_last_def run_simps)
next
  show "bridge_loop \<lparr>port_rx = [frame_bad_end], port_tx = [], outlet = [], sample_count = 0\<rparr>
       = Inr \<lparr>port_rx = [], port_tx = [], outlet = [], sample_count = 0\<rparr>"
    by (simp add: loop_simps run_simps frame_bad_end_def)
qed

theorem packet_rejected_unless_markers_and_terminator_witness:
  "length frame_bad_end = PACKET_LEN
   \<and> length (frame_bad_end[2 := 9]) = PACKET_LEN
   \<and> frame_bad_end[2 := 9] ! 0 = frame_bad_end ! 0
   \<and> frame_bad_end[2 := 9] ! 1 = frame_bad_end ! 1
   \<and> frame_bad_end[2 := 9] ! (PACKET_LEN - 1) = frame_bad_end ! (PACKET_LEN - 1)
   \<and> lost_sync (frame_bad_end[2 := 9]) = lost_sync frame_bad_end
   \<and> read_exact [frame_bad_end, frame_1_to_6] PACKET_LEN = Some (frame_bad_end, [frame_1_to_6])
   \<and> lost_sync frame_bad_end = Inr True
   \<and> loop_iteration \<lparr>port_rx = [frame_bad_end, frame_1_to_6], port_tx = [], outlet = [],
          sample_count = 0\<rparr>
       = Some (Inr \<lparr>port_rx = [], port_tx = [], outlet = [], sample_count = 0\<rparr>)
   \<and> length frame_1_to_6 = PACKET_LEN
   \<and> lost_sync frame_1_to_6 = Inr False"
  using packet_rejected_unless_markers_and_terminator
    [of frame_bad_end "\<lparr>port_rx = [frame_bad_end, frame_1_to_6], port_tx = [], outlet = [],
          sample_count = 0\<rparr>" "[frame_1_to_6]"]
    packet_rejected_unless_markers_and_terminator [of frame_1_to_6]
  by (simp add: loop_simps run_simps frame_bad_end_def frame_1_to_6_def)


text \<open>
  C2 (evaluation of the code where the claim fails): the stream is the frame with the
  wrong terminator and, right behind it, the well-formed frame of the first scenario. The
  loop reads the bad frame, rejects it and calls \<^verbatim>\<open>find_sync\<close>, which reads the well-formed
  frame and returns it; the loop assigns it to \<^verbatim>\<open>packet\<close> and goes on to the next
  iteration, whose \<^verbatim>\<open>read_exact\<close> overwrites it. The frame is neither checked nor decoded nor
  pushed: one iteration consumes both frames and the outlet stays empty. With a third
  frame behind them, the third is the only one published.
\<close>

theorem frame_after_rejected_frame_never_published:
  "lost_sync frame_bad_end = Inr True
   \<and> lost_sync frame_1_to_6 = Inr False
   \<and> parse_values frame_1_to_6 = Inr [1, 2, 3, 4, 5, 6]
   \<and> find_sync [frame_1_to_6] = Some (frame_1_to_6, [])
   \<and> loop_iteration \<lparr>port_rx = [frame_bad_end @ frame_1_to_6], port_tx = [], outlet = [],
         sample_count = 0\<rparr>
       = Some (Inr \<lparr>port_rx = [], port_tx = [], outlet = [], sample_count = 0\<rparr>)
   \<and> bridge_loop \<lparr>port_rx = [frame_bad_end @ frame_1_to_6], port_tx = [], outlet = [],
         sample_count = 0\<rparr>
       = Inr \<lparr>port_rx = [], port_tx = [], outlet = [], sample_count = 0\<rparr>
   \<and> bridge_loop \<lparr>port_rx = [frame_bad_end @ frame_1_to_6 @ frame_full_scale], port_tx = [],
         outlet = [], sample_count = 0\<rparr>
       = Inr \<lparr>port_rx = [], port_tx = [],
           outlet = [[65535, 16384, 16383, 0, 32768, 4660]], sample_count = 1\<rparr>"
  by (simp add: loop_simps run_simps frame_bad_end_def frame_1_to_6_def frame_full_scale_def)

text \<open>
  C6: whatever the port delivers, the loop pushes the decoded values of every packet
  that its \<^verbatim>\<open>read_exact\<close> returns and its sanity check lets pass, of these only, each once,
  in the order in which they are read, and \<^verbatim>\<open>sample_count\<close> grows by their number. These
  packets are pieces of the byte stream that lie in it in that order. An iteration that
  reads a packet passing the check always ends and pushes that packet, alone, adding 1 to
  the count; an iteration that ends without such a packet pushes nothing and leaves the
  count. On a stream that is a sequence of well-formed frames, every frame is published,
  in the order of arrival.
\<close>

theorem samples_published_in_arrival_order:
  "bridge_loop st = Inr (st\<lparr>port_rx := [],
       outlet := outlet st @ map channel_values (accepted_packets (port_rx st)),
       sample_count := sample_count st + int (length (accepted_packets (port_rx st)))\<rparr>)
   \<and> in_order (accepted_packets (port_rx st)) (concat (port_rx st))
   \<and> (\<forall>p\<in>set (accepted_packets (port_rx st)).
          length p = PACKET_LEN \<and> lost_sync p = Inr False
          \<and> parse_values p = Inr (channel_values p))
   \<and> (read_exact (port_rx st) PACKET_LEN = Some (packet, rx1) \<and> lost_sync packet = Inr False \<longrightarrow>
        loop_iteration st = Some (Inr (st\<lparr>port_rx := rx1,
            outlet := outlet st @ [channel_values packet],
            sample_count := sample_count st + 1\<rparr>)))
   \<and> (\<forall>st'. loop_iteration st = Some (Inr st') \<longrightarrow>
          outlet st' = outlet st \<and> sample_count st' = sample_count st
          \<or> (\<exists>packet rx1. read_exact (port_rx st) PACKET_LEN = Some (packet, rx1)
                \<and> lost_sync packet = Inr False
                \<and> outlet st' = outlet st @ [channel_values packet]
                \<and> sample_count st' = sample_count st + 1))
   \<and> (concat (port_rx st) = concat frames
        \<and> (\<forall>f\<in>set frames. length f = PACKET_LEN \<and> lost_sync f = Inr False) \<longrightarrow>
        bridge_loop st = Inr (st\<lparr>port_rx := [],
              outlet := outlet st @ map channel_values frames,
              sample_count := sample_count st + int (length frames)\<rparr>))"
proof (intro conjI allI impI ballI)
  show "bridge_loop st = Inr (st\<lparr>port_rx := [],
       outlet := outlet st @ map channel_values (accepted_packets (port_rx st)),
       sample_count := sample_count st + int (length (accepted_packets (port_rx st)))\<rparr>)"
    by (rule bridge_loop_accepted)
next
  show "in_order (accepted_packets (port_rx st)) (concat (port_rx st))"
    by (rule accepted_packets_in_order)
next
  fix p
  assume p: "p \<in> set (accepted_packets (port_rx st))"
  from accepted_packets_valid [OF p]
  show "length p = PACKET_LEN" and "lost_sync p = Inr False"
    and "parse_values p = Inr (channel_values p)"
    by (simp_all add: parse_values_closed)
next
  assume a: "read_exact (port_rx st) PACKET_LEN = Some (packet, rx1) \<and> lost_sync packet = Inr False"
  with read_exact_sound [of "port_rx st" PACKET_LEN packet rx1]
  have "length packet = PACKET_LEN" by simp
  with a show "loop_iteration st = Some (Inr (st\<lparr>port_rx := rx1,
            outlet := outlet st @ [channel_values packet],
            sample_count := sample_count st + 1\<rparr>))"
    by (simp add: loop_iteration_def parse_values_closed)
next
  fix st'
  assume it: "loop_iteration st = Some (Inr st')"
  show "outlet st' = outlet st \<and> sample_count st' = sample_count st
          \<or> (\<exists>packet rx1. read_exact (port_rx st) PACKET_LEN = Some (packet, rx1)
                \<and> lost_sync packet = Inr False
                \<and> outlet st' = outlet st @ [channel_values packet]
                \<and> sample_count st' = sample_count st + 1)"
  proof (cases st rule: loop_iteration_cases)
    case blocked
    with it show ?thesis by simp
  next
    case (rejected packet skipped packet' rx2)
    with it show ?thesis by auto
  next
    case (accepted packet rx1)
    with it show ?thesis by auto
  qed
next
  assume "concat (port_rx st) = concat frames
        \<and> (\<forall>f\<in>set frames. length f = PACKET_LEN \<and> lost_sync f = Inr False)"
  then show "bridge_loop st = Inr (st\<lparr>port_rx := [],
              outlet := outlet st @ map channel_values frames,
              sample_count := sample_count st + int (length frames)\<rparr>)"
    by (intro bridge_loop_frames) simp_all
qed

theorem samples_published_in_arrival_order_witness:
  "concat [frame_1_to_6 @ take 7 frame_full_scale, [], drop 7 frame_full_scale]
     = concat [frame_1_to_6, frame_full_scale]
   \<and> length frame_1_to_6 = PACKET_LEN \<and> lost_sync frame_1_to_6 = Inr False
   \<and> length frame_full_scale = PACKET_LEN \<and> lost_sync frame_full_scale = Inr False
   \<and> read_exact [frame_1_to_6 @ take 7 frame_full_scale, [], drop 7 frame_full_scale] PACKET_LEN
       = Some (frame_1_to_6, [take 7 frame_full_scale, [], drop 7 frame_full_scale])
   \<and> accepted_packets [frame_1_to_6 @ take 7 frame_full_scale, [], drop 7 frame_full_scale]
       = [frame_1_to_6, frame_full_scale]
   \<and> loop_iteration
         \<lparr>port_rx = [frame_1_to_6 @ take 7 frame_full_scale, [], drop 7 frame_full_scale],
           port_tx = [], outlet = [], sample_count = 0\<rparr>
       = Some (Inr \<lparr>port_rx = [take 7 frame_full_scale, [], drop 7 frame_full_scale],
                 port_tx = [], outlet = [[1, 2, 3, 4, 5, 6]], sample_count = 1\<rparr>)
   \<and> bridge_loop \<lparr>port_rx = [frame_1_to_6 @ take 7 frame_full_scale, [], drop 7 frame_full_scale],
          port_tx = [], outlet = [], sample_count = 0\<rparr>
       = Inr \<lparr>port_rx = [], port_tx = [],
           outlet = [[1, 2, 3, 4, 5, 6], [65535, 16384, 16383, 0, 32768, 4660]],
           sample_count = 2\<rparr>"
proof -
  let ?rx = "[frame_1_to_6 @ take 7 frame_full_scale, [], drop 7 frame_full_scale]"
  let ?rx1 = "[take 7 frame_full_scale, [], drop 7 frame_full_scale]"
  let ?st = "\<lparr>port_rx = ?rx, port_tx = [], outlet = [], sample_count = 0\<rparr>"
  have h0: "concat (port_rx ?st) = concat [frame_1_to_6, frame_full_scale]"
    by simp
  have h1: "concat ?rx = concat [frame_1_to_6, frame_full_scale]"
    by simp
  have h2: "length frame_1_to_6 = PACKET_LEN \<and> lost_sync frame_1_to_6 = Inr False"
    and h3: "length frame_full_scale = PACKET_LEN \<and> lost_sync frame_full_scale = Inr False"
    by (simp_all add: frame_1_to_6_def frame_full_scale_def lost_sync_def py_index_def
          py_last_def run_simps)
  have r1: "read_exact ?rx PACKET_LEN = Some (frame_1_to_6, ?rx1)"
    by (simp add: run_simps frame_1_to_6_def frame_full_scale_def)
  have r2: "read_exact ?rx1 PACKET_LEN = Some (frame_full_scale, [])"
    by (simp add: run_simps frame_full_scale_def)
  have r3: "read_exact [] PACKET_LEN = None"
    by (simp add: run_simps)
  have acc: "accepted_packets ?rx = [frame_1_to_6, frame_full_scale]"
    by (simp add: accepted_packets_accept [OF r1] accepted_packets_accept [OF r2]
          accepted_packets_blocked [OF r3] h2 h3)
  have cv: "channel_values frame_1_to_6 = [1, 2, 3, 4, 5, 6]"
    "channel_values frame_full_scale = [65535, 16384, 16383, 0, 32768, 4660]"
    by (simp_all add: channel_values_def frame_1_to_6_def frame_full_scale_def NUM_CHANNELS_def
          raw_value_eq upt_conv_Cons)
  have "loop_iteration ?st
      = Some (Inr \<lparr>port_rx = ?rx1, port_tx = [], outlet = [channel_values frame_1_to_6],
                sample_count = 1\<rparr>)"
    using samples_published_in_arrival_order [of ?st frame_1_to_6 ?rx1,
        THEN conjunct2, THEN conjunct2, THEN conjunct2, THEN conjunct1] r1 h2
    by simp
  then have it: "loop_iteration ?st
      = Some (Inr \<lparr>port_rx = ?rx1, port_tx = [], outlet = [[1, 2, 3, 4, 5, 6]],
                sample_count = 1\<rparr>)"
    by (simp only: cv)
  have "bridge_loop ?st
      = Inr \<lparr>port_rx = [], port_tx = [],
          outlet = [channel_values frame_1_to_6, channel_values frame_full_scale],
          sample_count = 2\<rparr>"
    using samples_published_in_arrival_order [of ?st _ _ "[frame_1_to_6, frame_full_scale]",
        THEN conjunct2, THEN conjunct2, THEN conjunct2, THEN conjunct2, THEN conjunct2]
      h0 h2 h3
    by (simp del: bridge_loop.simps)
  then have run: "bridge_loop ?st
      = Inr \<lparr>port_rx = [], port_tx = [],
          outlet = [[1, 2, 3, 4, 5, 6], [65535, 16384, 16383, 0, 32768, 4660]],
          sample_count = 2\<rparr>"
    by (simp only: cv)
  show ?thesis
    by (intro conjI) (rule h1 h2 [THEN conjunct1] h2 [THEN conjunct2] h3 [THEN conjunct1]
          h3 [THEN conjunct2] r1 acc it run)+
qed



text \<open>
  C8 (evaluation of the code where the claim fails): the board answers \<^verbatim>\<open>WHORU\<close> with the
  three bytes \<^verbatim>\<open>E2 9C 85\<close>, which decode to the one character \<^verbatim>\<open>U+2705\<close>, and the console
  has the encoding cp1252, which lacks it. The \<^verbatim>\<open>print\<close> of the reply raises
  \<^verbatim>\<open>UnicodeEncodeError\<close>: the bytes \<^verbatim>\<open>57 48 4F 52 55 0A\<close> of \<^verbatim>\<open>WHORU\<close> have been written,
  the bytes \<^verbatim>\<open>53 54 41 52 54 0A\<close> of \<^verbatim>\<open>START\<close> are not, and \<^verbatim>\<open>main\<close> ends with the
  exception. The same holds of the reply \<^verbatim>\<open>00 C7 BC 01\<close>. With an empty reply on the same
  console, and with the same replies on a UTF-8 console, \<^verbatim>\<open>START\<close> is written.
\<close>

theorem handshake_aborts_when_console_cannot_print_reply:
  "utf8_decode_ignore [0xE2, 0x9C, 0x85] = [0x2705]
   \<and> \<not> cp1252_console 0x2705
   \<and> handshake cp1252_console 3
         \<lparr>port_rx = [[0xE2, 0x9C, 0x85], frame_1_to_6], port_tx = [], outlet = [],
           sample_count = 0\<rparr>
       = Inl (UnicodeEncodeError,
              \<lparr>port_rx = [frame_1_to_6], port_tx = [0x57, 0x48, 0x4F, 0x52, 0x55, 0x0A],
                outlet = [], sample_count = 0\<rparr>)
   \<and> main cp1252_console 3 [[0xE2, 0x9C, 0x85], frame_1_to_6] = Inl UnicodeEncodeError
   \<and> handshake cp1252_console 4
         \<lparr>port_rx = [[0x00, 0xC7, 0xBC, 0x01], frame_1_to_6], port_tx = [], outlet = [],
           sample_count = 0\<rparr>
       = Inl (UnicodeEncodeError,
              \<lparr>port_rx = [frame_1_to_6], port_tx = [0x57, 0x48, 0x4F, 0x52, 0x55, 0x0A],
                outlet = [], sample_count = 0\<rparr>)
   \<and> handshake cp1252_console 0
         \<lparr>port_rx = [[], frame_1_to_6], port_tx = [], outlet = [], sample_count = 0\<rparr>
       = Inr ([], \<lparr>port_rx = [frame_1_to_6],
                    port_tx = [0x57, 0x48, 0x4F, 0x52, 0x55, 0x0A,
                               0x53, 0x54, 0x41, 0x52, 0x54, 0x0A],
                    outlet = [], sample_count = 0\<rparr>)
   \<and> handshake utf8_console 3
         \<lparr>port_rx = [[0xE2, 0x9C, 0x85], frame_1_to_6], port_tx = [], outlet = [],
           sample_count = 0\<rparr>
       = Inr ([0xE2, 0x9C, 0x85],
              \<lparr>port_rx = [frame_1_to_6],
                port_tx = [0x57, 0x48, 0x4F, 0x52, 0x55, 0x0A,
                           0x53, 0x54, 0x41, 0x52, 0x54, 0x0A],
                outlet = [], sample_count = 0\<rparr>)"
  by (simp add: main_def handshake_def py_print_def strip_def is_space_def
        continuation_def second_of_3_def second_of_4_def cp1252_console_def utf8_console_def
        WHORU_def START_def)

end
